theory Spec2Isabelle
  imports Main
begin

section \<open>Values shared by the two source files\<close>

text \<open>
  A JavaScript \<^verbatim>\<open>Error\<close> carries a message. It is the payload of
  \<^verbatim>\<open>left(new Error(..))\<close> and the reason of a rejected promise.
  The \<^verbatim>\<open>Either\<close> of fp-ts is the sum type: \<open>Inl\<close> is \<^verbatim>\<open>left\<close>,
  \<open>Inr\<close> is \<^verbatim>\<open>right\<close>; its \<^verbatim>\<open>Option\<close> is \<open>option\<close>.
\<close>

datatype error = Error string

text \<open>
  The settled state of a promise. An \<^verbatim>\<open>await\<close> of a rejected promise throws
  inside an \<^verbatim>\<open>async\<close> function, which rejects the promise of that function:
  every \<open>Rejected\<close> branch below is such a propagation.
\<close>

datatype 'a outcome = Resolved 'a | Rejected error

text \<open>
  JavaScript's \<^verbatim>\<open>!x\<close> for a value of type \<^verbatim>\<open>string | undefined\<close>:
  true for \<^verbatim>\<open>undefined\<close> and for the empty string.
\<close>

fun falsy :: "string option \<Rightarrow> bool" where
  "falsy None = True"
| "falsy (Some s) = (s = [])"

section \<open>The REST client: \<^verbatim>\<open>toEither\<close>\<close>

text \<open>
  A decoded response has a numeric \<^verbatim>\<open>status\<close> and a \<^verbatim>\<open>value\<close>. The
  parameter of \<^verbatim>\<open>toEither\<close> is \<^verbatim>\<open>ApiResponseType<T> | undefined\<close>, an
  \<open>option\<close> here. The type \<open>'v\<close> stands for whatever the field holds at run time.
\<close>

record 'v api_response =
  status :: int
  res_value :: 'v

text \<open>
  String concatenation with a number renders it in decimal
  (\<^verbatim>\<open>"Error parsing response: " + res.status\<close>).
\<close>

definition digit_char :: "nat \<Rightarrow> char" where
  "digit_char d = ''0123456789'' ! (d mod 10)"

fun string_of_nat :: "nat \<Rightarrow> string" where
  "string_of_nat n =
     (if n < 10 then [digit_char n] else string_of_nat (n div 10) @ [digit_char (n mod 10)])"

declare string_of_nat.simps [simp del]

definition number_toString :: "int \<Rightarrow> string" where
  "number_toString i =
     (if i < 0 then CHR ''-'' # string_of_nat (nat (- i)) else string_of_nat (nat i))"

definition toEither :: "'v api_response option \<Rightarrow> error + 'v" where
  "toEither res =
     (case res of
        None \<Rightarrow> Inl (Error ''Response is empty'')
      | Some r \<Rightarrow>
          if status r = 200 \<or> status r = 201 then Inr (res_value r)
          else Inl (Error (''Error parsing response: '' @ number_toString (status r))))"

section \<open>The API management helpers\<close>

subsection \<open>Data of the management SDK that the helpers read\<close>

text \<open>
  The contracts of \<^verbatim>\<open>azure-arm-apimanagement\<close> are not part of the sources; the
  records hold the fields the helpers read or write. \<^verbatim>\<open>name\<close> and \<^verbatim>\<open>id\<close>
  are optional in the SDK's resources.
\<close>

record subscription_contract =
  name :: "string option"
  userId :: string
  productId :: string
  displayName :: "string option"
  state :: string
  primaryKey :: string
  secondaryKey :: string

text \<open>The object literal passed to \<^verbatim>\<open>subscription.createOrUpdate\<close>.\<close>

record subscription_create_parameters =
  cp_displayName :: string
  cp_productId :: string
  cp_state :: string
  cp_userId :: string

record product_contract =
  product_id :: "string option"

record user_contract =
  user_name :: "string option"

record group_contract =
  group_name :: "string option"

subsection \<open>The client, its calls and the trace of calls\<close>

text \<open>
  Every method of the client the helpers use, each already applied to
  \<^verbatim>\<open>config.azurermResourceGroup\<close> and \<^verbatim>\<open>config.azurermApim\<close>. A
  method acts on the remote service \<open>'w\<close> and settles as resolved or rejected.
  \<^verbatim>\<open>ulid\<close> is the identifier generator.
\<close>

record 'w api_management_client =
  subscription_get :: "string \<Rightarrow> 'w \<Rightarrow> subscription_contract outcome \<times> 'w"
  subscription_regeneratePrimaryKey :: "string \<Rightarrow> 'w \<Rightarrow> unit outcome \<times> 'w"
  subscription_regenerateSecondaryKey :: "string \<Rightarrow> 'w \<Rightarrow> unit outcome \<times> 'w"
  subscription_createOrUpdate ::
    "string \<Rightarrow> subscription_create_parameters \<Rightarrow> 'w \<Rightarrow> subscription_contract outcome \<times> 'w"
  product_get :: "string \<Rightarrow> 'w \<Rightarrow> product_contract option outcome \<times> 'w"
  userGroup_list :: "string \<Rightarrow> 'w \<Rightarrow> group_contract list outcome \<times> 'w"
  groupUser_create :: "string \<Rightarrow> string \<Rightarrow> 'w \<Rightarrow> unit outcome \<times> 'w"
  ulid :: "'w \<Rightarrow> string \<times> 'w"

datatype call =
  SubscriptionGet string
| SubscriptionRegeneratePrimaryKey string
| SubscriptionRegenerateSecondaryKey string
| SubscriptionCreateOrUpdate string subscription_create_parameters
| ProductGet string
| UserGroupList string
| GroupUserCreate string string
| LoginWithAppServiceMSI
| GetToken

text \<open>
  The state threaded through a helper: the remote service and the calls issued so far,
  oldest first. \<open>invoke\<close> is an awaited call of a client method: it records the call
  and applies the method to the service.
\<close>

type_synonym 'w st = "'w \<times> call list"

definition invoke :: "call \<Rightarrow> ('w \<Rightarrow> 'a outcome \<times> 'w) \<Rightarrow> 'w st \<Rightarrow> 'a outcome \<times> 'w st" where
  "invoke c m s = (case m (fst s) of (r, w') \<Rightarrow> (r, (w', snd s @ [c])))"

subsection \<open>Subscriptions\<close>

definition getUserSubscription ::
  "'w api_management_client \<Rightarrow> string \<Rightarrow> string \<Rightarrow> 'w st \<Rightarrow> subscription_contract option outcome \<times> 'w st"
where
  "getUserSubscription apiClient subscriptionId uid s =
     (case invoke (SubscriptionGet subscriptionId) (subscription_get apiClient subscriptionId) s of
        (Rejected e, s1) \<Rightarrow> (Rejected e, s1)
      | (Resolved subscription, s1) \<Rightarrow>
          if userId subscription \<noteq> uid \<or> falsy (name subscription) then (Resolved None, s1)
          else (Resolved (Some (subscription\<lparr>name := name subscription\<rparr>)), s1))"

definition regeneratePrimaryKey ::
  "'w api_management_client \<Rightarrow> string \<Rightarrow> string \<Rightarrow> 'w st \<Rightarrow> subscription_contract option outcome \<times> 'w st"
where
  "regeneratePrimaryKey apiClient subscriptionId uid s =
     (case getUserSubscription apiClient subscriptionId uid s of
        (Rejected e, s1) \<Rightarrow> (Rejected e, s1)
      | (Resolved None, s1) \<Rightarrow> (Resolved None, s1)
      | (Resolved (Some maybeSubscription), s1) \<Rightarrow>
          (case invoke (SubscriptionRegeneratePrimaryKey subscriptionId)
                  (subscription_regeneratePrimaryKey apiClient subscriptionId) s1 of
             (Rejected e, s2) \<Rightarrow> (Rejected e, s2)
           | (Resolved _, s2) \<Rightarrow> getUserSubscription apiClient subscriptionId uid s2))"

definition regenerateSecondaryKey ::
  "'w api_management_client \<Rightarrow> string \<Rightarrow> string \<Rightarrow> 'w st \<Rightarrow> subscription_contract option outcome \<times> 'w st"
where
  "regenerateSecondaryKey apiClient subscriptionId uid s =
     (case getUserSubscription apiClient subscriptionId uid s of
        (Rejected e, s1) \<Rightarrow> (Rejected e, s1)
      | (Resolved None, s1) \<Rightarrow> (Resolved None, s1)
      | (Resolved (Some maybeSubscription), s1) \<Rightarrow>
          (case invoke (SubscriptionRegenerateSecondaryKey subscriptionId)
                  (subscription_regenerateSecondaryKey apiClient subscriptionId) s1 of
             (Rejected e, s2) \<Rightarrow> (Rejected e, s2)
           | (Resolved _, s2) \<Rightarrow> getUserSubscription apiClient subscriptionId uid s2))"


subsection \<open>Groups\<close>

text \<open>
  The callback given to \<^verbatim>\<open>groups.reduce\<close>: it awaits the promise of the previous
  round, then awaits \<^verbatim>\<open>groupUser.create\<close> for its own group and resolves with the
  extended list. A rejected \<^verbatim>\<open>prev\<close> makes the \<^verbatim>\<open>await\<close> throw before any
  call is issued.
\<close>

definition add_group ::
  "'w api_management_client \<Rightarrow> string \<Rightarrow> string list outcome \<times> 'w st \<Rightarrow> string
     \<Rightarrow> string list outcome \<times> 'w st"
where
  "add_group apiClient uname prev grp =
     (case prev of
        (Rejected e, s) \<Rightarrow> (Rejected e, s)
      | (Resolved addedGroups, s) \<Rightarrow>
          (case invoke (GroupUserCreate grp uname) (groupUser_create apiClient grp uname) s of
             (Rejected e, s1) \<Rightarrow> (Rejected e, s1)
           | (Resolved _, s1) \<Rightarrow> (Resolved (addedGroups @ [grp]), s1)))"

text \<open>
  \<^verbatim>\<open>addUserToGroups\<close>. The test \<^verbatim>\<open>!user || !user.name\<close> is the first three
  branches. \<^verbatim>\<open>existingGroupsNames\<close> and \<^verbatim>\<open>missingGroups\<close> are the two
  \<^verbatim>\<open>Set\<close>s of the source; the reduction runs over \<^verbatim>\<open>groups\<close>, as written there.
\<close>

definition addUserToGroups ::
  "'w api_management_client \<Rightarrow> user_contract option \<Rightarrow> string list \<Rightarrow> 'w st
     \<Rightarrow> (error + string list) outcome \<times> 'w st"
where
  "addUserToGroups apiClient user groups s =
     (case user of
        None \<Rightarrow> (Resolved (Inl (Error ''Cannot parse user'')), s)
      | Some u \<Rightarrow>
          (case user_name u of
             None \<Rightarrow> (Resolved (Inl (Error ''Cannot parse user'')), s)
           | Some uname \<Rightarrow>
               if uname = [] then (Resolved (Inl (Error ''Cannot parse user'')), s)
               else
                 (case invoke (UserGroupList uname) (userGroup_list apiClient uname) s of
                    (Rejected e, s1) \<Rightarrow> (Rejected e, s1)
                  | (Resolved existingGroups, s1) \<Rightarrow>
                      (let existingGroupsNames = set (map group_name existingGroups);
                           missingGroups =
                             set (filter (\<lambda>g. Some g \<notin> existingGroupsNames) groups)
                       in if card missingGroups = 0 then (Resolved (Inr []), s1)
                          else
                            (case foldl (add_group apiClient uname) (Resolved [], s1) groups of
                               (Rejected e, s2) \<Rightarrow> (Rejected e, s2)
                             | (Resolved added, s2) \<Rightarrow> (Resolved (Inr added), s2))))))"

subsection \<open>The chain of promises built by the reduction\<close>

text \<open>
  \<^verbatim>\<open>groups.reduce(async (prev, group) => ..., Promise.resolve([]))\<close> calls the
  callback once per group, synchronously; each call returns a pending promise suspended
  at \<^verbatim>\<open>await prev\<close>, where \<^verbatim>\<open>prev\<close> is the promise of the round before (the
  resolved empty list for the first). From then on the event loop resumes the
  callbacks. A round is in one of four states.
\<close>

datatype round_state =
  AwaitingPrev
| AwaitingCreate "string list"
| Fulfilled "string list"
| RejectedWith error

type_synonym 'w chain = "(string \<times> round_state) list \<times> 'w st"

definition chain_start :: "string list \<Rightarrow> 'w st \<Rightarrow> 'w chain" where
  "chain_start groups s = (map (\<lambda>g. (g, AwaitingPrev)) groups, s)"

fun prev_round :: "(string \<times> round_state) list \<Rightarrow> nat \<Rightarrow> round_state" where
  "prev_round rs 0 = Fulfilled []"
| "prev_round rs (Suc i) = (if i < length rs then snd (rs ! i) else AwaitingPrev)"

text \<open>
  One turn of the event loop for round \<open>i\<close>. A round suspended at \<^verbatim>\<open>await prev\<close>
  resumes once \<^verbatim>\<open>prev\<close> has settled: it issues \<^verbatim>\<open>groupUser.create\<close> (the call
  is recorded and is in flight), or rejects when \<^verbatim>\<open>prev\<close> was rejected. A round
  suspended at the call resumes when the call completes. A turn for a round that cannot
  resume changes nothing.
\<close>

definition resume ::
  "'w api_management_client \<Rightarrow> string \<Rightarrow> nat \<Rightarrow> 'w chain \<Rightarrow> 'w chain"
where
  "resume apiClient uname i c =
     (case c of
        (rs, s) \<Rightarrow>
          if length rs \<le> i then c
          else
            (case rs ! i of
               (grp, AwaitingPrev) \<Rightarrow>
                 (case prev_round rs i of
                    Fulfilled addedGroups \<Rightarrow>
                      (rs[i := (grp, AwaitingCreate addedGroups)],
                       (fst s, snd s @ [GroupUserCreate grp uname]))
                  | RejectedWith e \<Rightarrow> (rs[i := (grp, RejectedWith e)], s)
                  | AwaitingPrev \<Rightarrow> c
                  | AwaitingCreate xs \<Rightarrow> c)
             | (grp, AwaitingCreate addedGroups) \<Rightarrow>
                 (case groupUser_create apiClient grp uname (fst s) of
                    (Resolved _, w1) \<Rightarrow>
                      (rs[i := (grp, Fulfilled (addedGroups @ [grp]))], (w1, snd s))
                  | (Rejected e, w1) \<Rightarrow> (rs[i := (grp, RejectedWith e)], (w1, snd s)))
             | (grp, Fulfilled xs) \<Rightarrow> c
             | (grp, RejectedWith e) \<Rightarrow> c))"

text \<open>A run of the event loop: the rounds it turns to, in order.\<close>

definition run_chain ::
  "'w api_management_client \<Rightarrow> string \<Rightarrow> nat list \<Rightarrow> 'w chain \<Rightarrow> 'w chain"
where
  "run_chain apiClient uname schedule c = foldl (\<lambda>c i. resume apiClient uname i c) c schedule"

fun in_flight :: "string \<times> round_state \<Rightarrow> bool" where
  "in_flight (g, AwaitingCreate xs) = True"
| "in_flight (g, AwaitingPrev) = False"
| "in_flight (g, Fulfilled xs) = False"
| "in_flight (g, RejectedWith e) = False"

fun call_completed :: "string \<times> round_state \<Rightarrow> bool" where
  "call_completed (g, Fulfilled xs) = True"
| "call_completed (g, AwaitingPrev) = False"
| "call_completed (g, AwaitingCreate xs) = False"
| "call_completed (g, RejectedWith e) = False"

subsection \<open>Credentials\<close>

text \<open>
  \<^verbatim>\<open>expiresOn\<close> holds what \<^verbatim>\<open>new Date(expiresOn).getTime()\<close> gives: the epoch
  milliseconds, or \<open>None\<close> for \<^verbatim>\<open>NaN\<close> (a date that does not parse). Every
  comparison with \<^verbatim>\<open>NaN\<close> is false.
\<close>

record token_response =
  accessToken :: string
  expiresOn :: "int option"

record 'c token_and_credentials =
  token :: token_response
  loginCreds :: 'c

text \<open>
  The authentication provider of \<^verbatim>\<open>ms-rest-azure\<close> and the clock.
  \<^verbatim>\<open>loginCreds.getToken\<close> hands \<^verbatim>\<open>(err, tok)\<close> to its callback: \<open>Inl\<close> is a
  set \<^verbatim>\<open>err\<close>.
\<close>

record ('w, 'c) auth_provider =
  loginWithAppServiceMSI :: "'w \<Rightarrow> 'c outcome \<times> 'w"
  creds_getToken :: "'c \<Rightarrow> 'w \<Rightarrow> (error + token_response) \<times> 'w"
  Date_now :: "'w \<Rightarrow> int"

definition getToken ::
  "('w, 'c) auth_provider \<Rightarrow> 'c \<Rightarrow> 'w st \<Rightarrow> token_response outcome \<times> 'w st"
where
  "getToken provider creds s =
     invoke GetToken
       (\<lambda>w. case creds_getToken provider creds w of
               (Inl err, w1) \<Rightarrow> (Rejected err, w1)
             | (Inr tok, w1) \<Rightarrow> (Resolved tok, w1)) s"

definition loginToApim ::
  "('w, 'c) auth_provider \<Rightarrow> 'c token_and_credentials option \<Rightarrow> 'w st
     \<Rightarrow> 'c token_and_credentials outcome \<times> 'w st"
where
  "loginToApim provider tokenCreds s =
     (let tokenExpireTime =
            (case tokenCreds of Some tc \<Rightarrow> expiresOn (token tc) | None \<Rightarrow> Some 0);
          isTokenExpired =
            (case tokenExpireTime of
               None \<Rightarrow> False
             | Some t \<Rightarrow> t \<ge> Date_now provider (fst s))
      in case tokenCreds of
           Some tc \<Rightarrow>
             if \<not> isTokenExpired then (Resolved tc, s)
             else
               (case invoke LoginWithAppServiceMSI (loginWithAppServiceMSI provider) s of
                  (Rejected e, s1) \<Rightarrow> (Rejected e, s1)
                | (Resolved creds, s1) \<Rightarrow>
                    (case getToken provider creds s1 of
                       (Rejected e, s2) \<Rightarrow> (Rejected e, s2)
                     | (Resolved tok, s2) \<Rightarrow> (Resolved \<lparr>token = tok, loginCreds = creds\<rparr>, s2)))
         | None \<Rightarrow>
             (case invoke LoginWithAppServiceMSI (loginWithAppServiceMSI provider) s of
                (Rejected e, s1) \<Rightarrow> (Rejected e, s1)
              | (Resolved creds, s1) \<Rightarrow>
                  (case getToken provider creds s1 of
                     (Rejected e, s2) \<Rightarrow> (Rejected e, s2)
                   | (Resolved tok, s2) \<Rightarrow> (Resolved \<lparr>token = tok, loginCreds = creds\<rparr>, s2))))"

section \<open>An in-memory service for concrete runs\<close>

text \<open>
  A small service the helpers can be run against: subscriptions and products by name,
  the groups of each user, the groups whose \<^verbatim>\<open>groupUser.create\<close> it rejects, and a
  counter from which it draws keys and identifiers. Regenerating a key stores a key made
  from the counter and increments it. A lookup of a subscription or of a product the
  service does not have is rejected.
\<close>

record service =
  subscriptions :: "(string \<times> subscription_contract) list"
  products :: "(string \<times> product_contract) list"
  groups_of :: "(string \<times> string list) list"
  rejecting_groups :: "string list"
  generated :: nat

definition memory_subscription_get ::
  "string \<Rightarrow> service \<Rightarrow> subscription_contract outcome \<times> service"
where
  "memory_subscription_get sid w =
     (case map_of (subscriptions w) sid of
        None \<Rightarrow> (Rejected (Error ''ResourceNotFound''), w)
      | Some sub \<Rightarrow> (Resolved sub, w))"

definition memory_regeneratePrimaryKey :: "string \<Rightarrow> service \<Rightarrow> unit outcome \<times> service" where
  "memory_regeneratePrimaryKey sid w =
     (case map_of (subscriptions w) sid of
        None \<Rightarrow> (Rejected (Error ''ResourceNotFound''), w)
      | Some sub \<Rightarrow>
          (Resolved (),
           w\<lparr>subscriptions :=
                (sid, sub\<lparr>primaryKey := ''key'' @ string_of_nat (generated w)\<rparr>) # subscriptions w,
              generated := Suc (generated w)\<rparr>))"

definition memory_regenerateSecondaryKey :: "string \<Rightarrow> service \<Rightarrow> unit outcome \<times> service" where
  "memory_regenerateSecondaryKey sid w =
     (case map_of (subscriptions w) sid of
        None \<Rightarrow> (Rejected (Error ''ResourceNotFound''), w)
      | Some sub \<Rightarrow>
          (Resolved (),
           w\<lparr>subscriptions :=
                (sid, sub\<lparr>secondaryKey := ''key'' @ string_of_nat (generated w)\<rparr>) # subscriptions w,
              generated := Suc (generated w)\<rparr>))"

definition memory_createOrUpdate ::
  "string \<Rightarrow> subscription_create_parameters \<Rightarrow> service \<Rightarrow> subscription_contract outcome \<times> service"
where
  "memory_createOrUpdate sid params w =
     (let sub = \<lparr>name = Some sid, userId = cp_userId params, productId = cp_productId params,
                 displayName = Some (cp_displayName params), state = cp_state params,
                 primaryKey = ''key'' @ string_of_nat (generated w),
                 secondaryKey = ''key'' @ string_of_nat (Suc (generated w))\<rparr>
      in (Resolved sub,
          w\<lparr>subscriptions := (sid, sub) # subscriptions w,
            generated := Suc (Suc (generated w))\<rparr>))"

definition memory_product_get ::
  "string \<Rightarrow> service \<Rightarrow> product_contract option outcome \<times> service"
where
  "memory_product_get productName w =
     (case map_of (products w) productName of
        None \<Rightarrow> (Rejected (Error ''ResourceNotFound''), w)
      | Some product \<Rightarrow> (Resolved (Some product), w))"

definition memory_userGroup_list ::
  "string \<Rightarrow> service \<Rightarrow> group_contract list outcome \<times> service"
where
  "memory_userGroup_list uname w =
     (Resolved
        (map (\<lambda>g. \<lparr>group_name = Some g\<rparr>)
           (case map_of (groups_of w) uname of None \<Rightarrow> [] | Some gs \<Rightarrow> gs)), w)"

definition memory_groupUser_create :: "string \<Rightarrow> string \<Rightarrow> service \<Rightarrow> unit outcome \<times> service" where
  "memory_groupUser_create g uname w =
     (if g \<in> set (rejecting_groups w) then (Rejected (Error ''create failed''), w)
      else
        (Resolved (),
         w\<lparr>groups_of :=
              (uname, (case map_of (groups_of w) uname of None \<Rightarrow> [] | Some gs \<Rightarrow> gs) @ [g])
                # groups_of w\<rparr>))"

definition memory_ulid :: "service \<Rightarrow> string \<times> service" where
  "memory_ulid w = (''01'' @ string_of_nat (generated w), w\<lparr>generated := Suc (generated w)\<rparr>)"

definition memory_client :: "service api_management_client" where
  "memory_client =
     \<lparr>subscription_get = memory_subscription_get,
      subscription_regeneratePrimaryKey = memory_regeneratePrimaryKey,
      subscription_regenerateSecondaryKey = memory_regenerateSecondaryKey,
      subscription_createOrUpdate = memory_createOrUpdate,
      product_get = memory_product_get,
      userGroup_list = memory_userGroup_list,
      groupUser_create = memory_groupUser_create,
      ulid = memory_ulid\<rparr>"

text \<open>
  A provider whose world is the clock, in milliseconds: a login always succeeds and a
  fetched token expires one hour after the fetch.
\<close>

definition clock_provider :: "(int, string) auth_provider" where
  "clock_provider =
     \<lparr>loginWithAppServiceMSI = (\<lambda>w. (Resolved ''msi'', w)),
      creds_getToken =
        (\<lambda>c w. (Inr \<lparr>accessToken = ''fresh'', expiresOn = Some (w + 3600000)\<rparr>, w)),
      Date_now = (\<lambda>w. w)\<rparr>"

text \<open>The fixtures of the concrete runs.\<close>

definition demo_subscription :: subscription_contract where
  "demo_subscription =
     \<lparr>name = Some ''s1'', userId = ''u1'', productId = ''p1'', displayName = None,
      state = ''active'', primaryKey = ''k0'', secondaryKey = ''k1''\<rparr>"

definition demo_service :: service where
  "demo_service =
     \<lparr>subscriptions = [(''s1'', demo_subscription)],
      products = [(''prod'', \<lparr>product_id = Some ''/products/prod''\<rparr>),
                  (''noid'', \<lparr>product_id = None\<rparr>)],
      groups_of = [(''u1'', [''A''])],
      rejecting_groups = [''X''],
      generated = 7\<rparr>"

definition demo_user :: user_contract where
  "demo_user = \<lparr>user_name = Some ''u1''\<rparr>"

definition cached_credentials :: "int \<Rightarrow> string token_and_credentials" where
  "cached_credentials expiry =
     \<lparr>token = \<lparr>accessToken = ''cached'', expiresOn = Some expiry\<rparr>, loginCreds = ''old''\<rparr>"

section \<open>The order of the rounds of a chain\<close>

text \<open>
  A round whose call has been issued (it is in flight or has completed) comes after
  rounds whose calls have all completed.
\<close>

definition sequential :: "(string \<times> round_state) list \<Rightarrow> bool" where
  "sequential rs =
     (\<forall>i < length rs. \<forall>j < i.
        in_flight (rs ! i) \<or> call_completed (rs ! i) \<longrightarrow> call_completed (rs ! j))"

text \<open>
  The settled value of a round, and of the chain: the promise \<^verbatim>\<open>reduce\<close> returns is the
  one of the last round, or the initial \<^verbatim>\<open>Promise.resolve([])\<close> when there is no group.
\<close>

fun round_outcome :: "round_state \<Rightarrow> string list outcome option" where
  "round_outcome (Fulfilled xs) = Some (Resolved xs)"
| "round_outcome (RejectedWith e) = Some (Rejected e)"
| "round_outcome AwaitingPrev = None"
| "round_outcome (AwaitingCreate xs) = None"

definition chain_result :: "'w chain \<Rightarrow> (string list outcome \<times> 'w st) option" where
  "chain_result c =
     (case c of
        (rs, s) \<Rightarrow>
          if rs = [] then Some (Resolved [], s)
          else (case round_outcome (snd (last rs)) of
                  None \<Rightarrow> None
                | Some r \<Rightarrow> Some (r, s)))"

text \<open>The fold over the first \<open>k\<close> groups, and the chains that agree with it.\<close>

definition fold_upto ::
  "'w api_management_client \<Rightarrow> string \<Rightarrow> string list \<Rightarrow> 'w st \<Rightarrow> nat
     \<Rightarrow> string list outcome \<times> 'w st"
where
  "fold_upto apiClient uname gs s0 k =
     foldl (add_group apiClient uname) (Resolved [], s0) (take k gs)"

definition agrees ::
  "'w api_management_client \<Rightarrow> string \<Rightarrow> string list \<Rightarrow> 'w st \<Rightarrow> nat \<Rightarrow> 'w chain \<Rightarrow> bool"
where
  "agrees apiClient uname gs s0 k c =
     (case c of
        (rs, s) \<Rightarrow>
          map fst rs = gs \<and> k \<le> length gs
          \<and> (\<forall>j < k. round_outcome (snd (rs ! j))
                        = Some (fst (fold_upto apiClient uname gs s0 (Suc j))))
          \<and> (\<forall>j. k < j \<and> j < length gs \<longrightarrow> snd (rs ! j) = AwaitingPrev)
          \<and> (if k < length gs then
                (case snd (rs ! k) of
                   AwaitingPrev \<Rightarrow> s = snd (fold_upto apiClient uname gs s0 k)
                 | AwaitingCreate xs \<Rightarrow>
                     fst (fold_upto apiClient uname gs s0 k) = Resolved xs
                     \<and> s = (fst (snd (fold_upto apiClient uname gs s0 k)),
                            snd (snd (fold_upto apiClient uname gs s0 k))
                              @ [GroupUserCreate (gs ! k) uname])
                 | Fulfilled xs \<Rightarrow> False
                 | RejectedWith e \<Rightarrow> False)
              else s = snd (fold_upto apiClient uname gs s0 k)))"

section \<open>Evaluation and shared lemmas\<close>

lemmas digit_simps = string_of_nat.simps digit_char_def number_toString_def

lemma falsy_iff: "\<not> falsy x \<longleftrightarrow> (\<exists>n. x = Some n \<and> n \<noteq> [])"
  by (cases x) auto

lemma getUserSubscription_eq:
  "getUserSubscription apiClient sid uid (w, cs) =
     (case subscription_get apiClient sid w of
        (Rejected e, w1) \<Rightarrow> (Rejected e, (w1, cs @ [SubscriptionGet sid]))
      | (Resolved sub, w1) \<Rightarrow>
          (if userId sub = uid \<and> \<not> falsy (name sub) then Resolved (Some sub) else Resolved None,
           (w1, cs @ [SubscriptionGet sid])))"
  by (simp add: getUserSubscription_def invoke_def split: prod.splits outcome.splits)


lemma getUserSubscription_Some:
  assumes "getUserSubscription apiClient sid uid s = (Resolved (Some r), s1)"
  shows "userId r = uid \<and> (\<exists>n. name r = Some n \<and> n \<noteq> [])
         \<and> subscription_get apiClient sid (fst s) = (Resolved r, fst s1)"
  using assms
  by (cases s)
     (auto simp: getUserSubscription_eq falsy_iff split: prod.splits outcome.splits if_splits)

section \<open>\<^verbatim>\<open>toEither\<close>\<close>

text \<open>The decimal rendering determines the number.\<close>

lemma digit_char_inj: "a < 10 \<Longrightarrow> b < 10 \<Longrightarrow> digit_char a = digit_char b \<Longrightarrow> a = b"
proof -
  assume "a < 10" "b < 10" "digit_char a = digit_char b"
  have d: "distinct ''0123456789''" by simp
  have "a < length ''0123456789''" "b < length ''0123456789''"
    using \<open>a < 10\<close> \<open>b < 10\<close> by simp_all
  moreover have "''0123456789'' ! a = ''0123456789'' ! b"
    using \<open>digit_char a = digit_char b\<close> \<open>a < 10\<close> \<open>b < 10\<close> by (simp add: digit_char_def)
  ultimately show "a = b" using d by (simp only: nth_eq_iff_index_eq)
qed

lemma digit_char_not_minus: "digit_char d \<noteq> CHR ''-''"
proof -
  have "d mod 10 < length ''0123456789''" by simp
  then have "digit_char d \<in> set ''0123456789''"
    unfolding digit_char_def by (rule nth_mem)
  then show ?thesis by auto
qed

lemma string_of_nat_nonempty: "string_of_nat n \<noteq> []"
  by (subst string_of_nat.simps) simp

lemma string_of_nat_inj: "string_of_nat m = string_of_nat n \<Longrightarrow> m = n"
proof (induction m arbitrary: n rule: string_of_nat.induct)
  case (1 m)
  show ?case
  proof (cases "m < 10")
    case True
    then have m: "string_of_nat m = [digit_char m]" by (subst string_of_nat.simps) simp
    show ?thesis
    proof (cases "n < 10")
      case True
      then have "string_of_nat n = [digit_char n]" by (subst string_of_nat.simps) simp
      with m "1.prems" have "digit_char m = digit_char n" by simp
      with \<open>m < 10\<close> True show ?thesis by (rule digit_char_inj)
    next
      case False
      then have "string_of_nat n = string_of_nat (n div 10) @ [digit_char (n mod 10)]"
        by (subst string_of_nat.simps) simp
      with m "1.prems" string_of_nat_nonempty [of "n div 10"] show ?thesis by simp
    qed
  next
    case False
    then have m: "string_of_nat m = string_of_nat (m div 10) @ [digit_char (m mod 10)]"
      by (subst string_of_nat.simps) simp
    show ?thesis
    proof (cases "n < 10")
      case True
      then have "string_of_nat n = [digit_char n]" by (subst string_of_nat.simps) simp
      with m "1.prems" string_of_nat_nonempty [of "m div 10"] show ?thesis by simp
    next
      case n: False
      then have "string_of_nat n = string_of_nat (n div 10) @ [digit_char (n mod 10)]"
        by (subst string_of_nat.simps) simp
      with m "1.prems" have e: "string_of_nat (m div 10) = string_of_nat (n div 10)"
        "digit_char (m mod 10) = digit_char (n mod 10)" by simp_all
      from "1.IH" [OF False e(1)] have "m div 10 = n div 10" .
      moreover from e(2) have "m mod 10 = n mod 10" by (intro digit_char_inj) simp_all
      ultimately show ?thesis by (metis div_mult_mod_eq)
    qed
  qed
qed

lemma string_of_nat_hd: "hd (string_of_nat n) \<noteq> CHR ''-''"
proof (induction n rule: string_of_nat.induct)
  case (1 n)
  show ?case
  proof (cases "n < 10")
    case True
    then show ?thesis by (subst string_of_nat.simps) (simp add: digit_char_not_minus)
  next
    case False
    with "1.IH" string_of_nat_nonempty [of "n div 10"] show ?thesis
      by (subst string_of_nat.simps) simp
  qed
qed

lemma number_toString_inj: "number_toString a = number_toString b \<Longrightarrow> a = b"
proof -
  assume e: "number_toString a = number_toString b"
  have neg: "\<And>x y. CHR ''-'' # string_of_nat x \<noteq> string_of_nat y"
  proof
    fix x y assume "CHR ''-'' # string_of_nat x = string_of_nat y"
    then have "hd (string_of_nat y) = CHR ''-''" by (metis list.sel(1))
    with string_of_nat_hd show False by blast
  qed
  show "a = b"
  proof (cases "a < 0")
    case True
    show ?thesis
    proof (cases "b < 0")
      case b: True
      with True e have "nat (- a) = nat (- b)"
        by (auto simp: number_toString_def dest: string_of_nat_inj)
      with True b show ?thesis by simp
    next
      case False
      with True e neg show ?thesis by (auto simp: number_toString_def)
    qed
  next
    case False
    show ?thesis
    proof (cases "b < 0")
      case True
      with False e neg [of "nat (- b)" "nat a"] show ?thesis by (auto simp: number_toString_def)
    next
      case b: False
      with False e have "nat a = nat b"
        by (auto simp: number_toString_def dest: string_of_nat_inj)
      with False b show ?thesis by simp
    qed
  qed
qed

text \<open>
  Claim C9. \<^verbatim>\<open>toEither\<close> gives \<^verbatim>\<open>right(r.value)\<close> exactly when the response is
  defined and its status is 200 or 201; an undefined response gives the error
  "Response is empty", and a response with any other status gives the error whose
  message ends with that status in decimal, so that only responses with that status give
  that error.
\<close>

theorem toEither_right_iff:
  "toEither None = Inl (Error ''Response is empty'')
   \<and> (toEither res = Inr v \<longleftrightarrow>
        (\<exists>r. res = Some r \<and> (status r = 200 \<or> status r = 201) \<and> v = res_value r))
   \<and> (\<forall>r. res = Some r \<and> status r \<noteq> 200 \<and> status r \<noteq> 201 \<longrightarrow>
        toEither res = Inl (Error (''Error parsing response: '' @ number_toString (status r)))
        \<and> (\<forall>r'. toEither (Some r') = toEither res \<longrightarrow> status r' = status r))"
  by (auto simp: toEither_def split: option.splits if_splits dest: number_toString_inj)

theorem toEither_right_iff_witness:
  "toEither (Some \<lparr>status = 404, res_value = ''body''\<rparr>)
     = Inl (Error ''Error parsing response: 404'')
   \<and> toEither (Some \<lparr>status = 201, res_value = ''body''\<rparr>) = Inr ''body''
   \<and> toEither (Some \<lparr>status = 404, res_value = ''body''\<rparr>) \<noteq> Inr ''body''"
proof -
  have a: "toEither (Some \<lparr>status = 404, res_value = ''body''\<rparr>)
             = Inl (Error (''Error parsing response: '' @ number_toString 404))"
    using toEither_right_iff
            [of "Some \<lparr>status = 404, res_value = ''body''\<rparr>" "''body''",
             THEN conjunct2, THEN conjunct2, rule_format,
             of "\<lparr>status = 404, res_value = ''body''\<rparr>"]
    by simp
  have b: "toEither (Some \<lparr>status = 201, res_value = ''body''\<rparr>) = Inr ''body''"
    using toEither_right_iff
            [of "Some \<lparr>status = 201, res_value = ''body''\<rparr>" "''body''",
             THEN conjunct2, THEN conjunct1]
    by simp
  have c: "toEither (Some \<lparr>status = 404, res_value = ''body''\<rparr>) \<noteq> Inr ''body''"
    using toEither_right_iff
            [of "Some \<lparr>status = 404, res_value = ''body''\<rparr>" "''body''",
             THEN conjunct2, THEN conjunct1]
    by simp
  from a b c show ?thesis by (simp add: digit_simps)
qed

section \<open>Subscriptions and ownership\<close>

text \<open>
  Claim C7. \<^verbatim>\<open>getUserSubscription\<close> returns \<^verbatim>\<open>none\<close> whenever the fetched record
  belongs to another user or has no usable name, although the record exists; a record it
  returns belongs to the requested user, has a non-empty name, and is the fetched one.
\<close>

theorem getUserSubscription_ownership:
  "(subscription_get apiClient sid (fst s) = (Resolved sub, w1)
      \<and> (userId sub \<noteq> uid \<or> falsy (name sub))
     \<longrightarrow> getUserSubscription apiClient sid uid s
           = (Resolved None, (w1, snd s @ [SubscriptionGet sid])))
   \<and> (getUserSubscription apiClient sid uid s = (Resolved (Some r), s1)
     \<longrightarrow> userId r = uid \<and> (\<exists>n. name r = Some n \<and> n \<noteq> [])
         \<and> fst (subscription_get apiClient sid (fst s)) = Resolved r)"
proof (intro conjI impI)
  assume "subscription_get apiClient sid (fst s) = (Resolved sub, w1)
            \<and> (userId sub \<noteq> uid \<or> falsy (name sub))"
  then show "getUserSubscription apiClient sid uid s
               = (Resolved None, (w1, snd s @ [SubscriptionGet sid]))"
    by (cases s) (auto simp: getUserSubscription_eq)
next
  assume a: "getUserSubscription apiClient sid uid s = (Resolved (Some r), s1)"
  from getUserSubscription_Some [OF a]
  show "userId r = uid" "\<exists>n. name r = Some n \<and> n \<noteq> []"
    "fst (subscription_get apiClient sid (fst s)) = Resolved r" by simp_all
qed

theorem getUserSubscription_ownership_witness:
  "getUserSubscription memory_client ''s1'' ''u2'' (demo_service, [])
     = (Resolved None, (demo_service, [SubscriptionGet ''s1'']))
   \<and> getUserSubscription memory_client ''s1'' ''u1'' (demo_service, [])
     = (Resolved (Some demo_subscription), (demo_service, [SubscriptionGet ''s1'']))
   \<and> userId demo_subscription = ''u1'' \<and> name demo_subscription = Some ''s1''"
proof -
  have fetch: "subscription_get memory_client ''s1'' (fst (demo_service, []))
                 = (Resolved demo_subscription, demo_service)"
    by (simp add: memory_client_def memory_subscription_get_def demo_service_def)
  have other: "userId demo_subscription \<noteq> ''u2'' \<or> falsy (name demo_subscription)"
    by (simp add: demo_subscription_def)
  have own: "getUserSubscription memory_client ''s1'' ''u1'' (demo_service, [])
     = (Resolved (Some demo_subscription), (demo_service, [SubscriptionGet ''s1'']))"
    by (simp add: getUserSubscription_def invoke_def memory_client_def
        memory_subscription_get_def demo_service_def demo_subscription_def)
  from getUserSubscription_ownership
         [of memory_client "''s1''" "(demo_service, [])" demo_subscription demo_service "''u2''"
             demo_subscription "(demo_service, [SubscriptionGet ''s1''])"]
       fetch other
  have "getUserSubscription memory_client ''s1'' ''u2'' (demo_service, [])
          = (Resolved None, (demo_service, [SubscriptionGet ''s1'']))"
    by simp
  moreover
  from getUserSubscription_ownership
         [of memory_client "''s1''" "(demo_service, [])" demo_subscription demo_service "''u1''"
             demo_subscription "(demo_service, [SubscriptionGet ''s1''])"]
       own
  have "userId demo_subscription = ''u1'' \<and> (\<exists>n. name demo_subscription = Some n \<and> n \<noteq> [])"
    by simp
  ultimately show ?thesis using own by (simp add: demo_subscription_def)
qed

text \<open>
  Claim C5, as amended. When the fetched subscription belongs to another user or has no
  usable name, \<^verbatim>\<open>regeneratePrimaryKey\<close> and \<^verbatim>\<open>regenerateSecondaryKey\<close> resolve with
  \<^verbatim>\<open>none\<close>; when the fetch is rejected, as for a subscription the service does not
  have, they are rejected with the same error. In both cases the fetch is the only call
  they issue, and the service is left as the fetch left it.
\<close>

theorem regenerate_unowned_no_mutation:
  assumes "subscription_get apiClient sid (fst s) = (fetched, w1)"
    and "(\<exists>sub. fetched = Resolved sub \<and> (userId sub \<noteq> uid \<or> falsy (name sub)))
         \<or> (\<exists>e. fetched = Rejected e)"
  shows "regeneratePrimaryKey apiClient sid uid s
           = (case fetched of Resolved sub \<Rightarrow> Resolved None | Rejected e \<Rightarrow> Rejected e,
              (w1, snd s @ [SubscriptionGet sid]))
         \<and> regenerateSecondaryKey apiClient sid uid s
           = (case fetched of Resolved sub \<Rightarrow> Resolved None | Rejected e \<Rightarrow> Rejected e,
              (w1, snd s @ [SubscriptionGet sid]))"
proof -
  have "getUserSubscription apiClient sid uid s
          = (case fetched of Resolved sub \<Rightarrow> Resolved None | Rejected e \<Rightarrow> Rejected e,
             (w1, snd s @ [SubscriptionGet sid]))"
    using assms by (cases s; cases fetched) (auto simp: getUserSubscription_eq)
  then show ?thesis
    by (cases fetched) (simp_all add: regeneratePrimaryKey_def regenerateSecondaryKey_def)
qed

theorem regenerate_unowned_no_mutation_witness:
  "regeneratePrimaryKey memory_client ''s1'' ''u2'' (demo_service, [])
     = (Resolved None, (demo_service, [SubscriptionGet ''s1'']))
   \<and> regenerateSecondaryKey memory_client ''s1'' ''u2'' (demo_service, [])
     = (Resolved None, (demo_service, [SubscriptionGet ''s1'']))
   \<and> regenerateSecondaryKey memory_client ''s2'' ''u1'' (demo_service, [])
     = (Rejected (Error ''ResourceNotFound''), (demo_service, [SubscriptionGet ''s2'']))"
proof -
  have f1: "subscription_get memory_client ''s1'' (fst (demo_service, []))
              = (Resolved demo_subscription, demo_service)"
    by (simp add: memory_client_def memory_subscription_get_def demo_service_def)
  have o1: "(\<exists>sub. Resolved demo_subscription = Resolved sub
                  \<and> (userId sub \<noteq> ''u2'' \<or> falsy (name sub)))
            \<or> (\<exists>e. Resolved demo_subscription = Rejected e)"
    by (simp add: demo_subscription_def)
  have f2: "subscription_get memory_client ''s2'' (fst (demo_service, []))
              = (Rejected (Error ''ResourceNotFound''), demo_service)"
    by (simp add: memory_client_def memory_subscription_get_def demo_service_def)
  have o2: "(\<exists>sub. Rejected (Error ''ResourceNotFound'') = Resolved sub
                  \<and> (userId sub \<noteq> ''u1'' \<or> falsy (name sub)))
            \<or> (\<exists>e. Rejected (Error ''ResourceNotFound'') = Rejected e)"
    by simp
  from regenerate_unowned_no_mutation [OF f1 o1] regenerate_unowned_no_mutation [OF f2 o2]
  show ?thesis by simp
qed

text \<open>
  Claim C5 as stated fails for a subscription that is missing: the service rejects the
  fetch, and the regeneration is rejected instead of resolving with \<^verbatim>\<open>none\<close>.
\<close>

theorem regeneratePrimaryKey_missing_rejects:
  "regeneratePrimaryKey memory_client ''s2'' ''u1'' (demo_service, [])
     = (Rejected (Error ''ResourceNotFound''), (demo_service, [SubscriptionGet ''s2'']))
   \<and> fst (regeneratePrimaryKey memory_client ''s2'' ''u1'' (demo_service, []))
     \<noteq> Resolved None"
  by (simp add: regeneratePrimaryKey_def getUserSubscription_def invoke_def memory_client_def
      memory_subscription_get_def demo_service_def)



text \<open>
  Claim C10. A record that \<^verbatim>\<open>regeneratePrimaryKey\<close> or
  \<^verbatim>\<open>regenerateSecondaryKey\<close> returns belongs to the requested user and has a
  non-empty name.
\<close>

theorem regenerate_result_owned:
  "(regeneratePrimaryKey apiClient sid uid s = (Resolved (Some r), s1)
      \<longrightarrow> userId r = uid \<and> (\<exists>n. name r = Some n \<and> n \<noteq> []))
   \<and> (regenerateSecondaryKey apiClient sid uid s = (Resolved (Some r), s1)
      \<longrightarrow> userId r = uid \<and> (\<exists>n. name r = Some n \<and> n \<noteq> []))"
  by (auto simp: regeneratePrimaryKey_def regenerateSecondaryKey_def
        split: prod.splits outcome.splits option.splits dest: getUserSubscription_Some)

theorem regenerate_result_owned_witness:
  "regenerateSecondaryKey memory_client ''s1'' ''u1'' (demo_service, [])
     = (Resolved (Some (demo_subscription\<lparr>secondaryKey := ''key7''\<rparr>)),
        (demo_service\<lparr>subscriptions :=
            (''s1'', demo_subscription\<lparr>secondaryKey := ''key7''\<rparr>) # subscriptions demo_service,
          generated := 8\<rparr>,
         [SubscriptionGet ''s1'', SubscriptionRegenerateSecondaryKey ''s1'',
          SubscriptionGet ''s1'']))
   \<and> userId (demo_subscription\<lparr>secondaryKey := ''key7''\<rparr>) = ''u1''
   \<and> (\<exists>n. name (demo_subscription\<lparr>secondaryKey := ''key7''\<rparr>) = Some n \<and> n \<noteq> [])"
proof -
  have h: "regenerateSecondaryKey memory_client ''s1'' ''u1'' (demo_service, [])
     = (Resolved (Some (demo_subscription\<lparr>secondaryKey := ''key7''\<rparr>)),
        (demo_service\<lparr>subscriptions :=
            (''s1'', demo_subscription\<lparr>secondaryKey := ''key7''\<rparr>) # subscriptions demo_service,
          generated := 8\<rparr>,
         [SubscriptionGet ''s1'', SubscriptionRegenerateSecondaryKey ''s1'',
          SubscriptionGet ''s1'']))"
    by (simp add: regenerateSecondaryKey_def getUserSubscription_def invoke_def memory_client_def
        memory_subscription_get_def memory_regenerateSecondaryKey_def demo_service_def
        demo_subscription_def digit_simps)
  from regenerate_result_owned
         [of memory_client "''s1''" "''u1''" "(demo_service, [])"
             "demo_subscription\<lparr>secondaryKey := ''key7''\<rparr>"] h
  show ?thesis by simp
qed




section \<open>Credentials\<close>

text \<open>What \<^verbatim>\<open>loginToApim\<close> does with a cached pair, for every input.\<close>

lemma loginToApim_cases:
  "loginToApim provider tokenCreds s =
     (case tokenCreds of
        Some tc \<Rightarrow>
          (case expiresOn (token tc) of
             None \<Rightarrow> (Resolved tc, s)
           | Some t \<Rightarrow>
               if t < Date_now provider (fst s) then (Resolved tc, s)
               else loginToApim provider None s)
      | None \<Rightarrow> loginToApim provider None s)"
  by (auto simp: loginToApim_def Let_def split: option.splits)

text \<open>
  Claim C1 states that a cached pair whose expiry is still in the future is returned
  unchanged with no call, and that an absent or expired one is replaced by a fresh login
  and token fetch. The source sets \<^verbatim>\<open>isTokenExpired = tokenExpireTime >= Date.now()\<close>
  and returns the cached pair when \<^verbatim>\<open>!isTokenExpired\<close>. At time 1000 a cached pair
  that expires at 2000 is replaced after a login and a token fetch, and a cached pair
  that expired at 500 is returned unchanged with no call.
\<close>

theorem loginToApim_replaces_valid_token:
  "loginToApim clock_provider (Some (cached_credentials 2000)) (1000, [])
     = (Resolved \<lparr>token = \<lparr>accessToken = ''fresh'', expiresOn = Some 3601000\<rparr>,
                  loginCreds = ''msi''\<rparr>,
        (1000, [LoginWithAppServiceMSI, GetToken]))
   \<and> loginToApim clock_provider (Some (cached_credentials 500)) (1000, [])
     = (Resolved (cached_credentials 500), (1000, []))"
  by (simp add: loginToApim_def clock_provider_def cached_credentials_def invoke_def
      getToken_def)

section \<open>Groups\<close>

lemma add_group_Rejected [simp]: "add_group apiClient uname (Rejected e, s) g = (Rejected e, s)"
  by (simp add: add_group_def)

text \<open>Once a round is rejected, no later round issues a call.\<close>

lemma foldl_add_group_Rejected [simp]:
  "foldl (add_group apiClient uname) (Rejected e, s) gs = (Rejected e, s)"
  by (induction gs) simp_all

lemma add_group_Resolved:
  "add_group apiClient uname (Resolved xs, (w, cs)) g =
     (case groupUser_create apiClient g uname w of
        (Resolved u, w1) \<Rightarrow> (Resolved (xs @ [g]), (w1, cs @ [GroupUserCreate g uname]))
      | (Rejected e, w1) \<Rightarrow> (Rejected e, (w1, cs @ [GroupUserCreate g uname])))"
  by (simp add: add_group_def invoke_def split: prod.splits outcome.splits)

lemma foldl_add_group_Resolved:
  "foldl (add_group apiClient uname) (Resolved xs, (w, cs)) gs = (Resolved ys, s1) \<Longrightarrow>
     ys = xs @ gs \<and> snd s1 = cs @ map (\<lambda>g. GroupUserCreate g uname) gs"
proof (induction gs arbitrary: xs w cs)
  case Nil
  then show ?case by auto
next
  case (Cons g gs)
  obtain r w1 where c: "groupUser_create apiClient g uname w = (r, w1)"
    by (cases "groupUser_create apiClient g uname w")
  show ?case
  proof (cases r)
    case (Resolved u)
    with Cons.prems c
    have "foldl (add_group apiClient uname)
            (Resolved (xs @ [g]), (w1, cs @ [GroupUserCreate g uname])) gs = (Resolved ys, s1)"
      by (simp add: add_group_Resolved)
    from Cons.IH [OF this] show ?thesis by simp
  next
    case (Rejected e)
    with Cons.prems c show ?thesis by (simp add: add_group_Resolved)
  qed
qed

lemma foldl_add_group_fails:
  assumes "foldl (add_group apiClient uname) (Resolved xs, s) gs1 = (Resolved ys, s1)"
    and "groupUser_create apiClient g uname (fst s1) = (Rejected e, w2)"
  shows "foldl (add_group apiClient uname) (Resolved xs, s) (gs1 @ g # gs2) =
           (Rejected e, (w2, snd s @ map (\<lambda>g. GroupUserCreate g uname) (gs1 @ [g])))"
proof -
  obtain w cs where s: "s = (w, cs)" by (cases s)
  obtain w1 cs1 where s1: "s1 = (w1, cs1)" by (cases s1)
  from foldl_add_group_Resolved [OF assms(1) [unfolded s]]
  have "cs1 = cs @ map (\<lambda>g. GroupUserCreate g uname) gs1" by (simp add: s1)
  then show ?thesis using assms by (simp add: s s1 add_group_Resolved)
qed

lemma missing_card:
  "card (set (filter (\<lambda>g. Some g \<notin> names) gs)) = 0 \<longleftrightarrow> (\<forall>g \<in> set gs. Some g \<in> names)"
  by (auto simp: filter_empty_conv)

lemma addUserToGroups_eq:
  assumes "user_name u = Some uname" and "uname \<noteq> []"
  shows "addUserToGroups apiClient (Some u) gs (w, cs) =
     (case userGroup_list apiClient uname w of
        (Rejected e, w1) \<Rightarrow> (Rejected e, (w1, cs @ [UserGroupList uname]))
      | (Resolved existing, w1) \<Rightarrow>
          if \<forall>g \<in> set gs. Some g \<in> set (map group_name existing)
          then (Resolved (Inr []), (w1, cs @ [UserGroupList uname]))
          else (case foldl (add_group apiClient uname)
                       (Resolved [], (w1, cs @ [UserGroupList uname])) gs of
                  (Rejected e, s2) \<Rightarrow> (Rejected e, s2)
                | (Resolved added, s2) \<Rightarrow> (Resolved (Inr added), s2)))"
  unfolding addUserToGroups_def Let_def missing_card
  using assms by (simp add: invoke_def split: prod.splits outcome.splits)

text \<open>With no group missing, the listing is the only call.\<close>

lemma addUserToGroups_none_missing:
  assumes "user_name u = Some uname" and "uname \<noteq> []"
    and "userGroup_list apiClient uname w = (Resolved existing, w1)"
    and "\<forall>g \<in> set gs. Some g \<in> set (map group_name existing)"
  shows "addUserToGroups apiClient (Some u) gs (w, cs) =
           (Resolved (Inr []), (w1, cs @ [UserGroupList uname]))"
  unfolding addUserToGroups_eq [OF assms(1,2)] assms(3) using assms(4)
  by (simp only: prod.case outcome.case if_P)

lemma addUserToGroups_some_missing:
  assumes "user_name u = Some uname" and "uname \<noteq> []"
    and "userGroup_list apiClient uname w = (Resolved existing, w1)"
    and "\<not> (\<forall>g \<in> set gs. Some g \<in> set (map group_name existing))"
  shows "addUserToGroups apiClient (Some u) gs (w, cs) =
           (case foldl (add_group apiClient uname)
                       (Resolved [], (w1, cs @ [UserGroupList uname])) gs of
                  (Rejected e, s2) \<Rightarrow> (Rejected e, s2)
                | (Resolved added, s2) \<Rightarrow> (Resolved (Inr added), s2))"
  unfolding addUserToGroups_eq [OF assms(1,2)] assms(3) using assms(4)
  by (simp only: prod.case outcome.case if_False)

text \<open>
  With some group missing, a successful run has issued one call for every element of
  \<^verbatim>\<open>groups\<close>, in order, and returns \<^verbatim>\<open>groups\<close> itself.
\<close>

lemma addUserToGroups_added:
  assumes "user_name u = Some uname" and "uname \<noteq> []"
    and "userGroup_list apiClient uname (fst s) = (Resolved existing, w1)"
    and "\<not> (\<forall>g \<in> set gs. Some g \<in> set (map group_name existing))"
    and "addUserToGroups apiClient (Some u) gs s = (Resolved (Inr added), s2)"
  shows "added = gs
         \<and> snd s2 = snd s @ UserGroupList uname # map (\<lambda>x. GroupUserCreate x uname) gs"
proof -
  obtain r s3 where f: "foldl (add_group apiClient uname)
                       (Resolved [], (w1, snd s @ [UserGroupList uname])) gs = (r, s3)"
    by (cases "foldl (add_group apiClient uname)
                       (Resolved [], (w1, snd s @ [UserGroupList uname])) gs")
  have "addUserToGroups apiClient (Some u) gs (fst s, snd s) =
          (case r of Rejected e \<Rightarrow> (Rejected e, s3)
                   | Resolved added \<Rightarrow> (Resolved (Inr added), s3))"
    unfolding addUserToGroups_some_missing [OF assms(1,2,3,4)] f
    by (cases r) simp_all
  with assms(5) have "r = Resolved added \<and> s3 = s2"
    by (cases r) simp_all
  with f foldl_add_group_Resolved
           [of apiClient uname "[]" w1 "snd s @ [UserGroupList uname]" gs added s2]
  show ?thesis by simp
qed

text \<open>
  Claim C2 states that \<^verbatim>\<open>addUserToGroups\<close> issues one \<^verbatim>\<open>groupUser.create\<close> per
  missing group, none for a group the user already has, and returns the missing groups.
  The source computes \<^verbatim>\<open>missingGroups\<close> and tests its size, but reduces over
  \<^verbatim>\<open>groups\<close>. For a user who is in group A and the desired groups A and B, it
  issues a call for A and a call for B and returns both.
\<close>

theorem addUserToGroups_adds_present_group:
  "fst (addUserToGroups memory_client (Some demo_user) [''A'', ''B''] (demo_service, []))
     = Resolved (Inr [''A'', ''B''])
   \<and> snd (snd (addUserToGroups memory_client (Some demo_user) [''A'', ''B'']
                  (demo_service, [])))
     = [UserGroupList ''u1'', GroupUserCreate ''A'' ''u1'', GroupUserCreate ''B'' ''u1'']"
  by (simp add: addUserToGroups_def add_group_def invoke_def memory_client_def
      memory_userGroup_list_def memory_groupUser_create_def demo_service_def demo_user_def)

text \<open>
  Claim C3, as amended. When the listing shows a group missing, the calls for the groups
  before \<open>g\<close> succeed and the call for \<open>g\<close> is rejected with \<open>e\<close>, then the promise
  of \<^verbatim>\<open>addUserToGroups\<close> is rejected with \<open>e\<close> (no \<^verbatim>\<open>left\<close> is returned); the calls
  issued are the listing and the calls up to \<open>g\<close>, none for a later group and none
  that undoes an addition; the service is left as the rejected call left it.
\<close>

theorem addUserToGroups_failure_rejects:
  assumes "user_name u = Some uname" and "uname \<noteq> []"
    and "userGroup_list apiClient uname (fst s) = (Resolved existing, w1)"
    and "\<exists>x \<in> set (gs1 @ g # gs2). Some x \<notin> set (map group_name existing)"
    and "foldl (add_group apiClient uname) (Resolved [], (w1, snd s @ [UserGroupList uname])) gs1
           = (Resolved added, s1)"
    and "groupUser_create apiClient g uname (fst s1) = (Rejected e, w2)"
  shows "addUserToGroups apiClient (Some u) (gs1 @ g # gs2) s =
           (Rejected e,
            (w2, snd s @ UserGroupList uname # map (\<lambda>x. GroupUserCreate x uname) (gs1 @ [g])))"
proof -
  have f: "foldl (add_group apiClient uname) (Resolved [], (w1, snd s @ [UserGroupList uname]))
             (gs1 @ g # gs2)
     = (Rejected e, (w2, (snd s @ [UserGroupList uname])
                            @ map (\<lambda>g. GroupUserCreate g uname) (gs1 @ [g])))"
    using foldl_add_group_fails [OF assms(5) assms(6)] by simp
  have ne: "\<not> (\<forall>x \<in> set (gs1 @ g # gs2). Some x \<in> set (map group_name existing))"
    using assms(4) by blast
  have "addUserToGroups apiClient (Some u) (gs1 @ g # gs2) (fst s, snd s) =
          (Rejected e, (w2, (snd s @ [UserGroupList uname])
                              @ map (\<lambda>g. GroupUserCreate g uname) (gs1 @ [g])))"
    unfolding addUserToGroups_some_missing [OF assms(1,2,3) ne] f
    by (simp only: prod.case outcome.case)
  then show ?thesis by simp
qed

theorem addUserToGroups_failure_rejects_witness:
  "addUserToGroups memory_client (Some \<lparr>user_name = Some ''u2''\<rparr>) [''A'', ''X'', ''C'']
     (demo_service, [])
   = (Rejected (Error ''create failed''),
      (demo_service\<lparr>groups_of := (''u2'', [''A'']) # groups_of demo_service\<rparr>,
       [UserGroupList ''u2'', GroupUserCreate ''A'' ''u2'', GroupUserCreate ''X'' ''u2'']))"
proof -
  let ?w = "demo_service\<lparr>groups_of := (''u2'', [''A'']) # groups_of demo_service\<rparr>"
  have h1: "user_name \<lparr>user_name = Some ''u2''\<rparr> = Some ''u2''" by simp
  have h2: "''u2'' \<noteq> []" by simp
  have h3: "userGroup_list memory_client ''u2'' (fst (demo_service, []))
              = (Resolved [], demo_service)"
    by (simp add: memory_client_def memory_userGroup_list_def demo_service_def)
  have h4: "\<exists>x \<in> set ([''A''] @ ''X'' # [''C'']). Some x \<notin> set (map group_name [])"
    by auto
  have h5: "foldl (add_group memory_client ''u2'')
              (Resolved [], (demo_service, snd (demo_service, []) @ [UserGroupList ''u2'']))
              [''A'']
            = (Resolved [''A''], (?w, [UserGroupList ''u2'', GroupUserCreate ''A'' ''u2'']))"
    by (simp add: add_group_def invoke_def memory_client_def memory_groupUser_create_def
        demo_service_def)
  have h6: "groupUser_create memory_client ''X'' ''u2''
              (fst (?w, [UserGroupList ''u2'', GroupUserCreate ''A'' ''u2'']))
            = (Rejected (Error ''create failed''), ?w)"
    by (simp add: memory_client_def memory_groupUser_create_def demo_service_def)
  from addUserToGroups_failure_rejects [OF h1 h2 h3 h4 h5 h6]
  show ?thesis by simp
qed

text \<open>
  Claim C3 as stated fails: at this input the failure is the rejection of the promise,
  not a \<^verbatim>\<open>left\<close> in a resolved one.
\<close>

theorem addUserToGroups_failure_not_left:
  "fst (addUserToGroups memory_client (Some \<lparr>user_name = Some ''u2''\<rparr>) [''A'', ''X'', ''C'']
          (demo_service, []))
     = Rejected (Error ''create failed'')
   \<and> fst (addUserToGroups memory_client (Some \<lparr>user_name = Some ''u2''\<rparr>) [''A'', ''X'', ''C'']
          (demo_service, []))
     \<noteq> Resolved (Inl (Error ''create failed''))"
  by (simp add: addUserToGroups_def add_group_def invoke_def memory_client_def
      memory_userGroup_list_def memory_groupUser_create_def demo_service_def)

section \<open>The rounds of the chain run one at a time\<close>

lemma prev_round_Fulfilled:
  assumes "prev_round rs i = Fulfilled xs" and "i \<le> length rs" and "j < i"
    and "sequential rs"
  shows "call_completed (rs ! j)"
proof (cases i)
  case 0
  with assms(3) show ?thesis by simp
next
  case (Suc k)
  from assms(1,2) Suc have k: "snd (rs ! k) = Fulfilled xs" "k < length rs"
    by (auto split: if_splits)
  then have ck: "call_completed (rs ! k)" by (cases "rs ! k") simp
  show ?thesis
  proof (cases "j = k")
    case True
    with ck show ?thesis by simp
  next
    case False
    with assms(3) Suc have "j < k" by simp
    with assms(4) k ck show ?thesis unfolding sequential_def by blast
  qed
qed

text \<open>Settling or leaving a round whose call has not completed, without issuing a call.\<close>

lemma sequential_update_not_started:
  assumes "sequential rs" and "i < length rs" and "\<not> call_completed (rs ! i)"
    and "\<not> in_flight r" and "\<not> call_completed r"
  shows "sequential (rs[i := r])"
  unfolding sequential_def
proof (intro allI impI)
  fix k j
  assume k: "k < length (rs[i := r])" and j: "j < k"
    and st: "in_flight (rs[i := r] ! k) \<or> call_completed (rs[i := r] ! k)"
  from st assms(2,4,5) have ki: "k \<noteq> i" by auto
  with st have st': "in_flight (rs ! k) \<or> call_completed (rs ! k)" by simp
  have "j \<noteq> i"
  proof
    assume "j = i"
    with assms(1) k j st' have "call_completed (rs ! i)" unfolding sequential_def by auto
    with assms(3) show False by simp
  qed
  with assms(1) k j st' show "call_completed (rs[i := r] ! j)"
    unfolding sequential_def by auto
qed

text \<open>Issuing or completing the call of a round all of whose predecessors have completed.\<close>

lemma sequential_update_started:
  assumes "sequential rs" and "i < length rs" and "\<forall>j < i. call_completed (rs ! j)"
    and "call_completed r \<or> \<not> call_completed (rs ! i)"
  shows "sequential (rs[i := r])"
  unfolding sequential_def
proof (intro allI impI)
  fix k j
  assume k: "k < length (rs[i := r])" and j: "j < k"
    and st: "in_flight (rs[i := r] ! k) \<or> call_completed (rs[i := r] ! k)"
  show "call_completed (rs[i := r] ! j)"
  proof (cases "k = i")
    case True
    with j assms(2,3) show ?thesis by simp
  next
    case False
    with st have st': "in_flight (rs ! k) \<or> call_completed (rs ! k)" by simp
    with assms(1) k j have c: "call_completed (rs ! j)" unfolding sequential_def by auto
    show ?thesis
    proof (cases "j = i")
      case True
      with c assms(2,4) show ?thesis by auto
    next
      case False
      with c show ?thesis by simp
    qed
  qed
qed

lemma resume_sequential:
  assumes "sequential (fst c)"
  shows "sequential (fst (resume apiClient uname i c))"
proof -
  obtain rs s where c: "c = (rs, s)" by (cases c)
  show ?thesis
  proof (cases "length rs \<le> i")
    case True
    with assms c show ?thesis by (simp add: resume_def)
  next
    case False
    then have i: "i < length rs" by simp
    obtain g r where ri: "rs ! i = (g, r)" by (cases "rs ! i")
    from assms c have seq: "sequential rs" by simp
    show ?thesis
    proof (cases r)
      case AwaitingPrev
      note ap = this
      show ?thesis
      proof (cases "prev_round rs i")
        case (Fulfilled xs)
        have "\<forall>j < i. call_completed (rs ! j)"
          using prev_round_Fulfilled [OF Fulfilled _ _ seq] i by simp
        from sequential_update_started [OF seq i this, of "(g, AwaitingCreate xs)"] ri ap
        show ?thesis using c i Fulfilled by (simp add: resume_def)
      next
        case (RejectedWith e)
        from sequential_update_not_started [OF seq i, of "(g, RejectedWith e)"] ri ap
        show ?thesis using c i RejectedWith by (simp add: resume_def)
      qed (use assms c i ri ap in \<open>simp_all add: resume_def\<close>)
    next
      case (AwaitingCreate xs)
      have all: "\<forall>j < i. call_completed (rs ! j)"
        using seq i ri AwaitingCreate unfolding sequential_def by auto
      obtain o1 w1 where cr: "groupUser_create apiClient g uname (fst s) = (o1, w1)"
        by (cases "groupUser_create apiClient g uname (fst s)")
      show ?thesis
      proof (cases o1)
        case (Resolved u)
        from sequential_update_started [OF seq i all, of "(g, Fulfilled (xs @ [g]))"]
        show ?thesis using c i ri AwaitingCreate cr Resolved by (simp add: resume_def)
      next
        case (Rejected e)
        from sequential_update_not_started [OF seq i, of "(g, RejectedWith e)"] ri AwaitingCreate
        show ?thesis using c i cr Rejected by (simp add: resume_def)
      qed
    qed (use assms c i ri in \<open>simp_all add: resume_def\<close>)
  qed
qed

lemma run_chain_sequential:
  "sequential (fst c) \<Longrightarrow> sequential (fst (run_chain apiClient uname schedule c))"
  unfolding run_chain_def
  by (induction schedule arbitrary: c) (simp_all add: resume_sequential)

lemma chain_start_sequential: "sequential (fst (chain_start groups s))"
  by (simp add: chain_start_def sequential_def)

lemma resume_groups: "map fst (fst (resume apiClient uname i c)) = map fst (fst c)"
  by (auto simp: resume_def map_update list_update_same_conv
      split: prod.splits round_state.splits outcome.splits)

lemma run_chain_groups:
  "map fst (fst (run_chain apiClient uname schedule c)) = map fst (fst c)"
  unfolding run_chain_def
  by (induction schedule arbitrary: c) (simp_all add: resume_groups)

lemma sequential_one_in_flight:
  assumes "sequential rs" and "i < length rs" and "j < length rs"
    and "in_flight (rs ! i)" and "in_flight (rs ! j)"
  shows "i = j"
proof (rule ccontr)
  assume "i \<noteq> j"
  then consider "i < j" | "j < i" by linarith
  then show False
  proof cases
    case 1
    with assms have "call_completed (rs ! i)" unfolding sequential_def by blast
    with assms(4) show False by (cases "rs ! i" rule: in_flight.cases) simp_all
  next
    case 2
    with assms have "call_completed (rs ! j)" unfolding sequential_def by blast
    with assms(5) show False by (cases "rs ! j" rule: in_flight.cases) simp_all
  qed
qed

lemma filter_at_most_one:
  "(\<And>i j. i < length xs \<Longrightarrow> j < length xs \<Longrightarrow> P (xs ! i) \<Longrightarrow> P (xs ! j) \<Longrightarrow> i = j)
     \<Longrightarrow> length (filter P xs) \<le> 1"
proof (induction xs)
  case Nil
  then show ?case by simp
next
  case (Cons x xs)
  have ih: "length (filter P xs) \<le> 1"
  proof (rule Cons.IH)
    fix i j
    assume "i < length xs" "j < length xs" "P (xs ! i)" "P (xs ! j)"
    with Cons.prems [of "Suc i" "Suc j"] show "i = j" by simp
  qed
  show ?case
  proof (cases "P x")
    case True
    have "filter P xs = []"
    proof (rule ccontr)
      assume "filter P xs \<noteq> []"
      then obtain y where "y \<in> set xs" "P y" by (auto simp: filter_empty_conv)
      then obtain k where "k < length xs" "xs ! k = y" by (auto simp: in_set_conv_nth)
      with Cons.prems [of 0 "Suc k"] True \<open>P y\<close> show False by simp
    qed
    with True show ?thesis by simp
  next
    case False
    with ih show ?thesis by simp
  qed
qed

text \<open>
  Claim C4. However the event loop schedules the rounds of the chain that
  \<^verbatim>\<open>addUserToGroups\<close> builds, at most one \<^verbatim>\<open>groupUser.create\<close> call is in flight
  at any time, and a round whose call has been issued (in flight or completed) comes
  only after the calls of all earlier rounds have completed. The rounds stay those of
  \<^verbatim>\<open>groups\<close>, in order.
\<close>

theorem chain_one_call_in_flight:
  "length (filter in_flight (fst (run_chain apiClient uname schedule (chain_start groups s))))
     \<le> 1
   \<and> (\<forall>i j. j < i \<and> i < length groups
          \<and> (in_flight (fst (run_chain apiClient uname schedule (chain_start groups s)) ! i)
             \<or> call_completed
                 (fst (run_chain apiClient uname schedule (chain_start groups s)) ! i))
        \<longrightarrow> call_completed (fst (run_chain apiClient uname schedule (chain_start groups s)) ! j))
   \<and> map fst (fst (run_chain apiClient uname schedule (chain_start groups s))) = groups"
proof -
  let ?rs = "fst (run_chain apiClient uname schedule (chain_start groups s))"
  have seq: "sequential ?rs"
    by (rule run_chain_sequential) (rule chain_start_sequential)
  have one: "length (filter in_flight ?rs) \<le> 1"
    by (rule filter_at_most_one) (rule sequential_one_in_flight [OF seq])
  have gs: "map fst ?rs = groups"
    by (simp add: run_chain_groups chain_start_def comp_def)
  then have "length ?rs = length groups"
    by (metis length_map)
  with seq have "\<forall>i j. j < i \<and> i < length groups \<and> (in_flight (?rs ! i) \<or> call_completed (?rs ! i))
                   \<longrightarrow> call_completed (?rs ! j)"
    unfolding sequential_def by auto
  with one gs show ?thesis by blast
qed

theorem chain_one_call_in_flight_witness:
  "fst (run_chain memory_client ''u2'' [Suc 0, 0, Suc 0, 0, Suc 0]
          (chain_start [''A'', ''B''] (demo_service, [])))
     = [(''A'', Fulfilled [''A'']), (''B'', AwaitingCreate [''A''])]
   \<and> in_flight (''B'', AwaitingCreate [''A''])
   \<and> call_completed
       (fst (run_chain memory_client ''u2'' [Suc 0, 0, Suc 0, 0, Suc 0]
               (chain_start [''A'', ''B''] (demo_service, []))) ! 0)
   \<and> length (filter in_flight
               (fst (run_chain memory_client ''u2'' [Suc 0, 0, Suc 0, 0, Suc 0]
                       (chain_start [''A'', ''B''] (demo_service, []))))) \<le> 1"
proof -
  let ?rs = "fst (run_chain memory_client ''u2'' [Suc 0, 0, Suc 0, 0, Suc 0]
                    (chain_start [''A'', ''B''] (demo_service, [])))"
  have run: "?rs = [(''A'', Fulfilled [''A'']), (''B'', AwaitingCreate [''A''])]"
    by (simp add: run_chain_def resume_def chain_start_def memory_client_def
        memory_groupUser_create_def demo_service_def)
  have started: "0 < Suc 0 \<and> Suc 0 < length [''A'', ''B'']
                   \<and> (in_flight (?rs ! Suc 0) \<or> call_completed (?rs ! Suc 0))"
    by (simp add: run)
  note inst = chain_one_call_in_flight
               [of memory_client "''u2''" "[Suc 0, 0, Suc 0, 0, Suc 0]" "[''A'', ''B'']" "(demo_service, [])"]
  from inst [THEN conjunct2, THEN conjunct1, rule_format, OF started]
  have "call_completed (?rs ! 0)" .
  moreover from inst have "length (filter in_flight ?rs) \<le> 1" by blast
  ultimately show ?thesis using run by simp
qed

section \<open>The chain and the fold agree\<close>

lemma fold_upto_Suc:
  "k < length gs \<Longrightarrow>
     fold_upto apiClient uname gs s0 (Suc k)
       = add_group apiClient uname (fold_upto apiClient uname gs s0 k) (gs ! k)"
  by (simp add: fold_upto_def take_Suc_conv_app_nth)

lemma fold_upto_0: "fold_upto apiClient uname gs s0 0 = (Resolved [], s0)"
  by (simp add: fold_upto_def)

lemma fold_upto_all:
  "fold_upto apiClient uname gs s0 (length gs) = foldl (add_group apiClient uname) (Resolved [], s0) gs"
  by (simp add: fold_upto_def)

lemma agrees_start: "agrees apiClient uname gs s0 0 (chain_start gs s0)"
  by (auto simp: agrees_def chain_start_def fold_upto_0 comp_def)

lemma prev_round_agrees:
  assumes "agrees apiClient uname gs s0 k (rs, s)" and "k < length gs"
  shows "round_outcome (prev_round rs k) = Some (fst (fold_upto apiClient uname gs s0 k))"
proof (cases k)
  case 0
  then show ?thesis by (simp add: fold_upto_0)
next
  case (Suc k')
  from assms have len: "length rs = length gs" by (auto simp: agrees_def dest: arg_cong [where f = length])
  from assms Suc have "round_outcome (snd (rs ! k')) = Some (fst (fold_upto apiClient uname gs s0 (Suc k')))"
    by (auto simp: agrees_def)
  with Suc assms(2) len show ?thesis by simp
qed

lemma resume_agrees:
  assumes a: "agrees apiClient uname gs s0 k c"
  shows "\<exists>k'. agrees apiClient uname gs s0 k' (resume apiClient uname i c)"
proof -
  obtain rs s where c: "c = (rs, s)" by (cases c)
  from a c have gs: "map fst rs = gs" and kn: "k \<le> length gs"
    and settled: "\<forall>j < k. round_outcome (snd (rs ! j))
                        = Some (fst (fold_upto apiClient uname gs s0 (Suc j)))"
    and later: "\<forall>j. k < j \<and> j < length gs \<longrightarrow> snd (rs ! j) = AwaitingPrev"
    by (auto simp: agrees_def)
  from gs have len: "length rs = length gs" by (auto dest: arg_cong [where f = length])
  have same: "resume apiClient uname i c = c \<Longrightarrow> ?thesis" using a by auto
  show ?thesis
  proof (cases "i < length rs")
    case False
    then have "resume apiClient uname i c = c" by (simp add: resume_def c)
    then show ?thesis by (rule same)
  next
    case True
    note i = this
    obtain g r where ri: "rs ! i = (g, r)" by (cases "rs ! i")
    from gs i ri have g: "g = gs ! i" by (metis fst_conv nth_map)
    consider "i < k" | "k < i" | "i = k" by linarith
    then show ?thesis
    proof cases
      case 1
      with settled ri have "round_outcome r \<noteq> None" by auto
      then have "resume apiClient uname i c = c"
        using i ri by (cases r) (simp_all add: resume_def c)
      then show ?thesis by (rule same)
    next
      case 2
      with later i len ri have r: "r = AwaitingPrev" by auto
      obtain i' where i': "i = Suc i'" using 2 by (cases i) auto
      have "prev_round rs i = AwaitingPrev \<or> (\<exists>xs. prev_round rs i = AwaitingCreate xs)"
      proof (cases "i' = k")
        case True
        with a c i i' len show ?thesis
          by (cases "snd (rs ! k)") (auto simp: agrees_def)
      next
        case False
        with 2 i' have "k < i'" by simp
        with later i i' len show ?thesis by auto
      qed
      then have "resume apiClient uname i c = c"
        using i ri r by (auto simp add: resume_def c)
      then show ?thesis by (rule same)
    next
      case 3
      with i len have k: "k < length gs" by simp
      obtain o0 w0 cs0 where F: "fold_upto apiClient uname gs s0 k = (o0, (w0, cs0))"
        by (cases "fold_upto apiClient uname gs s0 k") auto
      have prev: "round_outcome (prev_round rs k) = Some o0"
        using prev_round_agrees [OF a [unfolded c] k] F by simp
      from a c k 3 ri have rcase: "(r = AwaitingPrev \<and> s = (w0, cs0)) \<or>
              (\<exists>xs. r = AwaitingCreate xs \<and> o0 = Resolved xs \<and> s = (w0, cs0 @ [GroupUserCreate (gs ! k) uname]))"
        by (cases r) (auto simp: agrees_def F)
      then show ?thesis
      proof
        assume ap: "r = AwaitingPrev \<and> s = (w0, cs0)"
        show ?thesis
        proof (cases o0)
          case (Resolved xs)
          with prev have p: "prev_round rs k = Fulfilled xs"
            by (cases "prev_round rs k") simp_all
          have res: "resume apiClient uname i c =
                  (rs[k := (g, AwaitingCreate xs)], (w0, cs0 @ [GroupUserCreate g uname]))"
            using i ri ap p 3 by (simp add: resume_def c)
          have "agrees apiClient uname gs s0 k (resume apiClient uname i c)"
            unfolding res agrees_def
            using gs kn settled later k len g 3 F Resolved ri
            by (auto simp: map_update list_update_same_conv)
          then show ?thesis ..
        next
          case (Rejected e)
          with prev have p: "prev_round rs k = RejectedWith e"
            by (cases "prev_round rs k") simp_all
          have res: "resume apiClient uname i c = (rs[k := (g, RejectedWith e)], (w0, cs0))"
            using i ri ap p 3 by (simp add: resume_def c)
          have FS: "fold_upto apiClient uname gs s0 (Suc k) = (Rejected e, (w0, cs0))"
            using fold_upto_Suc [OF k, of apiClient uname s0] F Rejected by simp
          have "agrees apiClient uname gs s0 (Suc k) (resume apiClient uname i c)"
            unfolding res agrees_def
            using gs kn settled later k len g 3 F FS Rejected ri
            by (auto simp: map_update list_update_same_conv less_Suc_eq nth_list_update)
          then show ?thesis ..
        qed
      next
        assume "\<exists>xs. r = AwaitingCreate xs \<and> o0 = Resolved xs \<and> s = (w0, cs0 @ [GroupUserCreate (gs ! k) uname])"
        then obtain xs where ac: "r = AwaitingCreate xs" "o0 = Resolved xs"
           "s = (w0, cs0 @ [GroupUserCreate (gs ! k) uname])" by blast
        obtain o1 w1 where cr: "groupUser_create apiClient g uname w0 = (o1, w1)"
          by (cases "groupUser_create apiClient g uname w0")
        show ?thesis
        proof (cases o1)
          case (Resolved u)
          have res: "resume apiClient uname i c =
                  (rs[k := (g, Fulfilled (xs @ [g]))], (w1, cs0 @ [GroupUserCreate (gs ! k) uname]))"
            using i ri ac cr Resolved 3 by (simp add: resume_def c)
          have FS: "fold_upto apiClient uname gs s0 (Suc k)
                      = (Resolved (xs @ [g]), (w1, cs0 @ [GroupUserCreate (gs ! k) uname]))"
            using fold_upto_Suc [OF k, of apiClient uname s0] F ac cr Resolved g 3 by (simp add: add_group_Resolved)
          have "agrees apiClient uname gs s0 (Suc k) (resume apiClient uname i c)"
            unfolding res agrees_def
            using gs kn settled later k len g 3 F FS ri
            by (auto simp: map_update list_update_same_conv less_Suc_eq nth_list_update)
          then show ?thesis ..
        next
          case (Rejected e)
          have res: "resume apiClient uname i c =
                  (rs[k := (g, RejectedWith e)], (w1, cs0 @ [GroupUserCreate (gs ! k) uname]))"
            using i ri ac cr Rejected 3 by (simp add: resume_def c)
          have FS: "fold_upto apiClient uname gs s0 (Suc k)
                      = (Rejected e, (w1, cs0 @ [GroupUserCreate (gs ! k) uname]))"
            using fold_upto_Suc [OF k, of apiClient uname s0] F ac cr Rejected g 3 by (simp add: add_group_Resolved)
          have "agrees apiClient uname gs s0 (Suc k) (resume apiClient uname i c)"
            unfolding res agrees_def
            using gs kn settled later k len g 3 F FS ri
            by (auto simp: map_update list_update_same_conv less_Suc_eq nth_list_update)
          then show ?thesis ..
        qed
      qed
    qed
  qed
qed

lemma run_chain_agrees:
  "agrees apiClient uname gs s0 k c \<Longrightarrow>
     \<exists>k'. agrees apiClient uname gs s0 k' (run_chain apiClient uname schedule c)"
proof (induction schedule arbitrary: k c)
  case Nil
  then show ?case by (auto simp: run_chain_def)
next
  case (Cons i schedule)
  from resume_agrees [OF Cons.prems] obtain k1
    where "agrees apiClient uname gs s0 k1 (resume apiClient uname i c)" ..
  from Cons.IH [OF this] show ?case by (simp add: run_chain_def)
qed

lemma agrees_result:
  assumes "agrees apiClient uname gs s0 k c" and "chain_result c = Some res"
  shows "res = foldl (add_group apiClient uname) (Resolved [], s0) gs"
proof -
  obtain rs s where c: "c = (rs, s)" by (cases c)
  from assms(1) c have gs: "map fst rs = gs" by (auto simp: agrees_def)
  then have len: "length rs = length gs" by (auto dest: arg_cong [where f = length])
  show ?thesis
  proof (cases "rs = []")
    case True
    with assms c gs show ?thesis by (auto simp: agrees_def chain_result_def fold_upto_0)
  next
    case False
    then have n: "0 < length gs" using len by (cases rs) auto
    from assms(2) c False obtain r where r: "round_outcome (snd (last rs)) = Some r" "res = (r, s)"
      by (auto simp: chain_result_def split: option.splits)
    have last: "last rs = rs ! (length gs - 1)" using False len by (simp add: last_conv_nth)
    have "k = length gs"
    proof (rule ccontr)
      assume "k \<noteq> length gs"
      with assms(1) c have k: "k < length gs" by (auto simp: agrees_def)
      show False
      proof (cases "k = length gs - 1")
        case True
        with assms(1) c k r last show False
          by (cases "snd (rs ! k)") (auto simp: agrees_def)
      next
        case False
        with k have "k < length gs - 1" by simp
        with assms(1) c n have "snd (rs ! (length gs - 1)) = AwaitingPrev"
          by (auto simp: agrees_def)
        with r last show False by simp
      qed
    qed
    with assms(1) c n r last have "r = fst (fold_upto apiClient uname gs s0 (length gs))"
      "s = snd (fold_upto apiClient uname gs s0 (length gs))"
      by (auto simp: agrees_def)
    with r show ?thesis by (simp add: fold_upto_all)
  qed
qed

text \<open>
  Whatever the schedule, once the last round has settled the chain has the outcome and has
  left the state (service and calls) that the fold of \<^verbatim>\<open>addUserToGroups\<close> computes.
\<close>

lemma chain_settles_as_fold:
  "chain_result (run_chain apiClient uname schedule (chain_start gs s0)) = Some res \<Longrightarrow>
     res = foldl (add_group apiClient uname) (Resolved [], s0) gs"
  using run_chain_agrees [OF agrees_start] agrees_result by blast

lemma chain_settles_as_fold_example:
  "chain_result (run_chain memory_client ''u2'' [0, 0, Suc 0, Suc 0]
                   (chain_start [''A'', ''X''] (demo_service, [])))
     = Some (foldl (add_group memory_client ''u2'') (Resolved [], (demo_service, []))
               [''A'', ''X''])
   \<and> fst (foldl (add_group memory_client ''u2'') (Resolved [], (demo_service, []))
            [''A'', ''X'']) = Rejected (Error ''create failed'')"
  by (simp add: chain_result_def run_chain_def resume_def chain_start_def add_group_def
      invoke_def memory_client_def memory_groupUser_create_def demo_service_def)

end
